theory Spec2Isabelle
  imports Main "HOL-Library.Word" "HOL-Library.Multiset"
begin

unbundle bit_operations_syntax

section \<open>Data model\<close>

text \<open>
  The program is Python (\<open>src/main.py\<close>). Its integers are unbounded, so they are
  modelled as \<open>int\<close>; \<open>x >> n\<close> is \<open>drop_bit n x\<close>, \<open>x << n\<close> is \<open>push_bit n x\<close>,
  and \<open>&\<close>, \<open>|\<close>, \<open>^\<close> are \<open>AND\<close>, \<open>OR\<close>, \<open>XOR\<close> on \<open>int\<close> (two's complement with
  infinitely many sign bits, as in Python). A \<open>bytes\<close> object is a list of 8-bit words:
  the type carries Python's invariant that every element lies in \<open>range(256)\<close>.
  Every exception the modelled code can raise is a value of \<open>error\<close>; a function that
  can raise returns \<open>error + 'a\<close> with \<open>Inl\<close> for the exception.
\<close>

datatype error =
    ValueError string
  | IndexError
  | TypeError
  | KeyError
  | OverflowError
  | ZeroDivisionError

type_synonym bytes = "8 word list"

text \<open>The message of the only \<open>ValueError\<close> the program raises itself (lines 193, 195).\<close>

definition InvalidPadding :: error where
  "InvalidPadding = ValueError ''Invalid padding detected.''"

subsection \<open>Python sequence primitives\<close>

text \<open>
  Resolving a subscript against a sequence of \<open>len\<close> elements: an index below zero
  counts from the end, and \<open>None\<close> stands for an index outside the sequence.
\<close>

definition norm_index :: "nat \<Rightarrow> int \<Rightarrow> nat option" where
  "norm_index len i =
     (if 0 \<le> i \<and> i < int len then Some (nat i)
      else if - int len \<le> i \<and> i < 0 then Some (nat (int len + i))
      else None)"

text \<open>\<open>xs[i]\<close> and \<open>xs[i] = v\<close>: IndexError outside the sequence.\<close>

definition list_get :: "'a list \<Rightarrow> int \<Rightarrow> error + 'a" where
  "list_get xs i =
     (case norm_index (length xs) i of
        None \<Rightarrow> Inl IndexError
      | Some j \<Rightarrow> Inr (xs ! j))"

definition list_set :: "'a list \<Rightarrow> int \<Rightarrow> 'a \<Rightarrow> error + 'a list" where
  "list_set xs i v =
     (case norm_index (length xs) i of
        None \<Rightarrow> Inl IndexError
      | Some j \<Rightarrow> Inr (xs[j := v]))"

text \<open>The clamped bound of a slice \<open>xs[i:]\<close> or \<open>xs[:i]\<close>.\<close>

definition slice_index :: "'a list \<Rightarrow> int \<Rightarrow> nat" where
  "slice_index xs i =
     (let n = int (length xs)
      in if i < 0 then nat (max (n + i) 0) else nat (min i n))"

definition slice_from :: "'a list \<Rightarrow> int \<Rightarrow> 'a list" where
  "slice_from xs i = drop (slice_index xs i) xs"

definition slice_to :: "'a list \<Rightarrow> int \<Rightarrow> 'a list" where
  "slice_to xs i = take (slice_index xs i) xs"

text \<open>\<open>bytes(vs)\<close> for a list of ints: every value must lie in \<open>range(256)\<close>.\<close>

definition bytes_of_ints :: "int list \<Rightarrow> error + bytes" where
  "bytes_of_ints vs =
     (if list_all (\<lambda>v. 0 \<le> v \<and> v < 256) vs then Inr (map word_of_int vs)
      else Inl (ValueError ''bytes must be in range(0, 256)''))"

section \<open>LFSR key scheduling\<close>

text \<open>\<open>lfsr_step\<close>, lines 17-31.\<close>

definition lfsr_step :: "int \<Rightarrow> int \<times> int" where
  "lfsr_step state =
     (let b0 = drop_bit 0 state AND 1;
          b1 = drop_bit 1 state AND 1;
          b21 = drop_bit 21 state AND 1;
          b31 = drop_bit 31 state AND 1;
          new_bit = b0 XOR b1 XOR b21 XOR b31;
          state1 = drop_bit 1 state AND 0x7FFFFFFF;
          state2 = (if new_bit = 1 then state1 OR push_bit 31 1 else state1)
      in (state2, state2))"

section \<open>Key-dependent S-box generation\<close>

text \<open>
  \<open>generate_s_box\<close>, lines 34-46. \<open>random.Random(key)\<close> followed by \<open>rng.shuffle(box)\<close>
  is Python's standard library, not code of this program: it is the parameter
  \<open>shuffle\<close>, a function from the seed and the list to the shuffled list. The loop
  \<open>for i, val in enumerate(box): inv_box[val] = i\<close> is \<open>fill_inverse\<close>.
\<close>

fun fill_inverse :: "(nat \<times> int) list \<Rightarrow> int list \<Rightarrow> error + int list" where
  "fill_inverse [] inv_box = Inr inv_box"
| "fill_inverse ((i, val) # rest) inv_box =
     (case list_set inv_box val (int i) of
        Inl e \<Rightarrow> Inl e
      | Inr inv_box' \<Rightarrow> fill_inverse rest inv_box')"

definition generate_s_box ::
  "(int \<Rightarrow> int list \<Rightarrow> int list) \<Rightarrow> int \<Rightarrow> error + (int list \<times> int list)" where
  "generate_s_box shuffle key =
     (let box = shuffle key (map int [0..<16]);
          inv_box = replicate 16 0
      in case fill_inverse (enumerate 0 box) inv_box of
           Inl e \<Rightarrow> Inl e
         | Inr inv_box' \<Rightarrow> Inr (box, inv_box'))"

text \<open>
  The module-level variables of lines 49-50: \<open>None\<close> until the main routine assigns
  the result of \<open>generate_s_box\<close> to them (line 290).
\<close>

record globals =
  s_box_nibble :: "int list option"
  inverse_s_box_nibble :: "int list option"

definition initial_globals :: globals where
  "initial_globals = \<lparr>s_box_nibble = None, inverse_s_box_nibble = None\<rparr>"

definition install_s_box ::
  "(int \<Rightarrow> int list \<Rightarrow> int list) \<Rightarrow> int \<Rightarrow> error + globals" where
  "install_s_box shuffle key =
     (case generate_s_box shuffle key of
        Inl e \<Rightarrow> Inl e
      | Inr (box, inv_box) \<Rightarrow>
          Inr \<lparr>s_box_nibble = Some box, inverse_s_box_nibble = Some inv_box\<rparr>)"

text \<open>Subscripting a global that may still be \<open>None\<close>.\<close>

definition subscript :: "int list option \<Rightarrow> int \<Rightarrow> error + int" where
  "subscript tbl i = (case tbl of None \<Rightarrow> Inl TypeError | Some xs \<Rightarrow> list_get xs i)"

text \<open>\<open>s_box\<close>, lines 52-62: the loop over \<open>range(4)\<close>, then the function.\<close>

fun s_box_loop :: "int list option \<Rightarrow> int \<Rightarrow> nat list \<Rightarrow> int \<Rightarrow> error + int" where
  "s_box_loop tbl x [] result = Inr result"
| "s_box_loop tbl x (i # rest) result =
     (let nibble = drop_bit (i * 4) x AND 0xF
      in case subscript tbl nibble of
           Inl e \<Rightarrow> Inl e
         | Inr sub \<Rightarrow> s_box_loop tbl x rest (result OR push_bit (i * 4) sub))"

definition s_box :: "globals \<Rightarrow> int \<Rightarrow> error + int" where
  "s_box g x = s_box_loop (s_box_nibble g) x [0..<4] 0"

section \<open>P-box and its inverse\<close>

text \<open>\<open>p_box\<close>, lines 76-86.\<close>

definition p_box :: "int \<Rightarrow> int" where
  "p_box x =
     fold (\<lambda>i result.
             let b = drop_bit i x AND 1;
                 new_pos = (i * 3) mod 16
             in result OR push_bit new_pos b)
          [0..<16] 0"

text \<open>\<open>inverse_p_box\<close>, lines 88-104: the dictionary, the loop, the function.\<close>

definition mapping :: "nat \<rightharpoonup> nat" where
  "mapping = map_of
     [(0, 0), (1, 11), (2, 6), (3, 1),
      (4, 12), (5, 7), (6, 2), (7, 13),
      (8, 8), (9, 3), (10, 14), (11, 9),
      (12, 4), (13, 15), (14, 10), (15, 5)]"

fun inverse_p_box_loop :: "int \<Rightarrow> nat list \<Rightarrow> int \<Rightarrow> error + int" where
  "inverse_p_box_loop x [] result = Inr result"
| "inverse_p_box_loop x (i # rest) result =
     (let b = drop_bit i x AND 1
      in case mapping i of
           None \<Rightarrow> Inl KeyError
         | Some original_pos \<Rightarrow>
             inverse_p_box_loop x rest (result OR push_bit original_pos b))"

definition inverse_p_box :: "int \<Rightarrow> error + int" where
  "inverse_p_box x = inverse_p_box_loop x [0..<16] 0"

section \<open>Feistel rounds\<close>

text \<open>\<open>round_function\<close>, lines 107-111.\<close>

definition round_function :: "globals \<Rightarrow> int \<Rightarrow> int \<Rightarrow> error + int" where
  "round_function g x subkey =
     (case s_box g x of
        Inl e \<Rightarrow> Inl e
      | Inr s \<Rightarrow> Inr (p_box s XOR (subkey AND 0xFFFF)))"

text \<open>
  The subkey loop shared by \<open>encrypt_block\<close> (lines 126-130) and \<open>decrypt_block\<close>
  (lines 157-161): \<open>rounds\<close> steps of the LFSR, each appending the low 16 bits of the
  output word. \<open>range(rounds)\<close> is empty for \<open>rounds \<le> 0\<close>, hence \<open>nat rounds\<close> at
  the call.
\<close>

fun subkey_loop :: "nat \<Rightarrow> int \<Rightarrow> int list \<Rightarrow> int \<times> int list" where
  "subkey_loop 0 current_state subkeys = (current_state, subkeys)"
| "subkey_loop (Suc n) current_state subkeys =
     (let (current_state', out_word) = lfsr_step current_state
      in subkey_loop n current_state' (subkeys @ [out_word AND 0xFFFF]))"

text \<open>
  The round loop of \<open>encrypt_block\<close> (lines 137-141). \<open>subkeys\<close> holds exactly
  \<open>rounds\<close> entries, so \<open>subkeys[i]\<close> for \<open>i\<close> in \<open>range(rounds)\<close> visits the list in
  order. The \<open>print\<close> calls have no effect on the result and are left out.
\<close>

fun encrypt_rounds :: "globals \<Rightarrow> int list \<Rightarrow> int \<Rightarrow> int \<Rightarrow> error + (int \<times> int)" where
  "encrypt_rounds g [] L R = Inr (L, R)"
| "encrypt_rounds g (subkey # rest) L R =
     (case round_function g R subkey of
        Inl e \<Rightarrow> Inl e
      | Inr F \<Rightarrow> (let new_L = R; new_R = L XOR F in encrypt_rounds g rest new_L new_R))"

definition encrypt_block :: "globals \<Rightarrow> int \<Rightarrow> int \<Rightarrow> int \<Rightarrow> error + (int \<times> int)" where
  "encrypt_block g block lfsr_state rounds =
     (let L = drop_bit 16 block AND 0xFFFF;
          R = block AND 0xFFFF;
          (current_state, subkeys) = subkey_loop (nat rounds) lfsr_state []
      in case encrypt_rounds g subkeys L R of
           Inl e \<Rightarrow> Inl e
         | Inr (L', R') \<Rightarrow>
             Inr (push_bit 16 (L' AND 0xFFFF) OR (R' AND 0xFFFF), current_state))"

text \<open>The round loop of \<open>decrypt_block\<close> (lines 168-172), run over \<open>reversed(subkeys)\<close>.\<close>

fun decrypt_rounds :: "globals \<Rightarrow> int list \<Rightarrow> int \<Rightarrow> int \<Rightarrow> error + (int \<times> int)" where
  "decrypt_rounds g [] L R = Inr (L, R)"
| "decrypt_rounds g (subkey # rest) L R =
     (case round_function g L subkey of
        Inl e \<Rightarrow> Inl e
      | Inr F \<Rightarrow> (let new_R = L; new_L = R XOR F in decrypt_rounds g rest new_L new_R))"

definition decrypt_block :: "globals \<Rightarrow> int \<Rightarrow> int \<Rightarrow> int \<Rightarrow> error + (int \<times> int)" where
  "decrypt_block g block lfsr_state rounds =
     (let L = drop_bit 16 block AND 0xFFFF;
          R = block AND 0xFFFF;
          (current_state, subkeys) = subkey_loop (nat rounds) lfsr_state []
      in case decrypt_rounds g (rev subkeys) L R of
           Inl e \<Rightarrow> Inl e
         | Inr (L', R') \<Rightarrow>
             Inr (push_bit 16 (L' AND 0xFFFF) OR (R' AND 0xFFFF), current_state))"

section \<open>Padding and conversion\<close>

text \<open>
  \<open>pad_pkcs7\<close>, lines 178-185. \<open>%\<close> by zero raises; \<open>[pad_len] * pad_len\<close> is empty
  for a negative count; \<open>bytes(...)\<close> checks the range of every element.
\<close>

definition pad_pkcs7 :: "bytes \<Rightarrow> int \<Rightarrow> error + bytes" where
  "pad_pkcs7 data block_size =
     (if block_size = 0 then Inl ZeroDivisionError
      else
        let pad_len0 = block_size - (int (length data) mod block_size);
            pad_len = (if pad_len0 = 0 then block_size else pad_len0)
        in case bytes_of_ints (replicate (nat pad_len) pad_len) of
             Inl e \<Rightarrow> Inl e
           | Inr padding \<Rightarrow> Inr (data @ padding))"

text \<open>\<open>unpad_pkcs7\<close>, lines 187-196. \<open>data[-1]\<close> on an empty buffer raises IndexError.\<close>

definition unpad_pkcs7 :: "bytes \<Rightarrow> int \<Rightarrow> error + bytes" where
  "unpad_pkcs7 data block_size =
     (case list_get data (- 1) of
        Inl e \<Rightarrow> Inl e
      | Inr last_byte \<Rightarrow>
          let pad_len = uint last_byte
          in if pad_len < 1 \<or> pad_len > block_size then Inl InvalidPadding
             else if list_ex (\<lambda>p. uint p \<noteq> pad_len) (slice_from data (- pad_len))
               then Inl InvalidPadding
             else Inr (slice_to data (- pad_len)))"

text \<open>\<open>int.from_bytes(chunk, byteorder='big')\<close>, for a chunk of any length.\<close>

definition int_from_bytes :: "bytes \<Rightarrow> int" where
  "int_from_bytes chunk = foldl (\<lambda>acc b. acc * 256 + uint b) 0 chunk"

text \<open>\<open>block.to_bytes(4, byteorder='big')\<close>: OverflowError outside \<open>[0, 2^32)\<close>.\<close>

definition int_to_bytes4 :: "int \<Rightarrow> error + bytes" where
  "int_to_bytes4 block =
     (if 0 \<le> block \<and> block < 2 ^ 32
      then Inr [word_of_int (drop_bit 24 block), word_of_int (drop_bit 16 block),
                word_of_int (drop_bit 8 block), word_of_int block]
      else Inl OverflowError)"

text \<open>
  \<open>bytes_to_blocks\<close>, lines 198-207. \<open>range(0, len(data), 4)\<close> is \<open>0, 4, 8, ...\<close> below
  the length; \<open>data[i:i+4]\<close> is the at most four bytes from offset \<open>i\<close>. No statement of
  the function raises: it returns on every input.
\<close>

definition range_step4 :: "nat \<Rightarrow> nat list" where
  "range_step4 n = map (\<lambda>k. 4 * k) [0..<(n + 3) div 4]"

definition bytes_to_blocks :: "bytes \<Rightarrow> error + int list" where
  "bytes_to_blocks data =
     Inr (fold (\<lambda>i blocks.
                  let chunk = take 4 (drop i data);
                      block_val = int_from_bytes chunk
                  in blocks @ [block_val])
               (range_step4 (length data)) [])"

text \<open>\<open>blocks_to_bytes\<close>, lines 209-216.\<close>

fun blocks_to_bytes_loop :: "int list \<Rightarrow> bytes \<Rightarrow> error + bytes" where
  "blocks_to_bytes_loop [] output = Inr output"
| "blocks_to_bytes_loop (block # rest) output =
     (case int_to_bytes4 block of
        Inl e \<Rightarrow> Inl e
      | Inr bs \<Rightarrow> blocks_to_bytes_loop rest (output @ bs))"

definition blocks_to_bytes :: "int list \<Rightarrow> error + bytes" where
  "blocks_to_bytes blocks = blocks_to_bytes_loop blocks []"

section \<open>Messages\<close>

text \<open>
  The block loop of \<open>encrypt_message\<close> (lines 229-235): the LFSR state returned for
  one block is the state passed to the next.
\<close>

fun encrypt_loop :: "globals \<Rightarrow> int \<Rightarrow> int list \<Rightarrow> int \<Rightarrow> int list \<Rightarrow> error + int list" where
  "encrypt_loop g rounds [] lfsr_state encrypted_blocks = Inr encrypted_blocks"
| "encrypt_loop g rounds (blk # rest) lfsr_state encrypted_blocks =
     (case encrypt_block g blk lfsr_state rounds of
        Inl e \<Rightarrow> Inl e
      | Inr (enc_blk, lfsr_state') \<Rightarrow>
          encrypt_loop g rounds rest lfsr_state' (encrypted_blocks @ [enc_blk]))"

definition encrypt_message :: "globals \<Rightarrow> bytes \<Rightarrow> int \<Rightarrow> int \<Rightarrow> error + bytes" where
  "encrypt_message g plaintext key_32 rounds =
     (case pad_pkcs7 plaintext 4 of
        Inl e \<Rightarrow> Inl e
      | Inr padded \<Rightarrow>
          (case bytes_to_blocks padded of
             Inl e \<Rightarrow> Inl e
           | Inr blocks \<Rightarrow>
               (case encrypt_loop g rounds blocks key_32 [] of
                  Inl e \<Rightarrow> Inl e
                | Inr encrypted_blocks \<Rightarrow> blocks_to_bytes encrypted_blocks)))"

text \<open>
  The block loop of \<open>decrypt_message\<close> (lines 248-253), and the list
  \<open>decrypted_blocks\<close> it leaves (lines 246-253) before the bytes are rebuilt and
  unpadded.
\<close>

fun decrypt_loop :: "globals \<Rightarrow> int \<Rightarrow> int list \<Rightarrow> int \<Rightarrow> int list \<Rightarrow> error + int list" where
  "decrypt_loop g rounds [] lfsr_state decrypted_blocks = Inr decrypted_blocks"
| "decrypt_loop g rounds (blk # rest) lfsr_state decrypted_blocks =
     (case decrypt_block g blk lfsr_state rounds of
        Inl e \<Rightarrow> Inl e
      | Inr (dec_blk, lfsr_state') \<Rightarrow>
          decrypt_loop g rounds rest lfsr_state' (decrypted_blocks @ [dec_blk]))"

definition decrypted_blocks_of :: "globals \<Rightarrow> bytes \<Rightarrow> int \<Rightarrow> int \<Rightarrow> error + int list" where
  "decrypted_blocks_of g ciphertext key_32 rounds =
     (case bytes_to_blocks ciphertext of
        Inl e \<Rightarrow> Inl e
      | Inr blocks \<Rightarrow> decrypt_loop g rounds blocks key_32 [])"

definition decrypt_message :: "globals \<Rightarrow> bytes \<Rightarrow> int \<Rightarrow> int \<Rightarrow> error + bytes" where
  "decrypt_message g ciphertext key_32 rounds =
     (case decrypted_blocks_of g ciphertext key_32 rounds of
        Inl e \<Rightarrow> Inl e
      | Inr decrypted_blocks \<Rightarrow>
          (case blocks_to_bytes decrypted_blocks of
             Inl e \<Rightarrow> Inl e
           | Inr padded_plaintext \<Rightarrow> unpad_pkcs7 padded_plaintext 4))"

section \<open>Notions used in the proofs\<close>

text \<open>
  The value \<open>inverse_p_box\<close> computes, with the table lookup \<open>mapping[i]\<close> replaced
  by its closed form \<open>(i * 11) mod 16\<close>; the two are shown equal below.
\<close>

definition inverse_p_box_value :: "int \<Rightarrow> int" where
  "inverse_p_box_value x =
     fold (\<lambda>i r. r OR push_bit ((i * 11) mod 16) (of_bool (bit x i))) [0..<16] 0"

text \<open>
  A stand-in for the library shuffle, used where a statement about \<open>generate_s_box\<close>
  is instantiated: the rotation of the list by the seed. It returns a permutation of
  its input, which is all the statements below ask of a shuffle.
\<close>

definition example_shuffle :: "int \<Rightarrow> int list \<Rightarrow> int list" where
  "example_shuffle seed xs = rotate (nat (seed mod 16)) xs"

text \<open>
  The four big-endian bytes of a block and the blocks of a byte sequence, as values:
  what \<open>int_to_bytes4\<close> returns when it does not raise, and what \<open>bytes_to_blocks\<close>
  returns.
\<close>

definition bytes4 :: "int \<Rightarrow> bytes" where
  "bytes4 block =
     [word_of_int (drop_bit 24 block), word_of_int (drop_bit 16 block),
      word_of_int (drop_bit 8 block), word_of_int block]"

definition blocks_of :: "bytes \<Rightarrow> int list" where
  "blocks_of data =
     map (\<lambda>k. int_from_bytes (take 4 (drop (4 * k) data))) [0..<(length data + 3) div 4]"

section \<open>Bit-level facts\<close>

lemma drop_bit_and_one: "drop_bit i (x::int) AND 1 = of_bool (bit x i)"
  by (simp add: and_one_eq bit_iff_odd_drop_bit mod_2_eq_odd)

lemma and_mask31: "(x::int) AND 0x7FFFFFFF = take_bit 31 x"
  by (simp add: take_bit_eq_mask mask_eq_exp_minus_1)

lemma and_mask16: "(x::int) AND 0xFFFF = take_bit 16 x"
  by (simp add: take_bit_eq_mask mask_eq_exp_minus_1)

lemma and_mask4: "(x::int) AND 0xF = take_bit 4 x"
  by (simp add: take_bit_eq_mask mask_eq_exp_minus_1)

section \<open>The LFSR step\<close>

lemma new_bit_eq:
  "(of_bool a :: int) XOR of_bool b XOR of_bool c XOR of_bool d = 1 \<longleftrightarrow>
     (((a \<noteq> b) \<noteq> c) \<noteq> d)"
  by (cases a; cases b; cases c; cases d; simp)

lemma lfsr_step_eq:
  "lfsr_step s =
     (let s' = take_bit 31 (drop_bit 1 s) OR
               push_bit 31 (of_bool (((bit s 0 \<noteq> bit s 1) \<noteq> bit s 21) \<noteq> bit s 31))
      in (s', s'))"
proof -
  let ?fb = "((bit s 0 \<noteq> bit s 1) \<noteq> bit s 21) \<noteq> bit s 31"
  have "(drop_bit 0 s AND 1) XOR (drop_bit 1 s AND 1) XOR (drop_bit 21 s AND 1) XOR
          (drop_bit 31 s AND 1) = 1 \<longleftrightarrow> ?fb"
    unfolding drop_bit_and_one new_bit_eq ..
  then show ?thesis
    unfolding lfsr_step_def Let_def and_mask31 by (cases ?fb) simp_all
qed

lemma bit_lfsr_step:
  "bit (fst (lfsr_step s)) n \<longleftrightarrow>
     (n < 31 \<and> bit s (Suc n)) \<or>
     (n = 31 \<and> ((((bit s 0 \<noteq> bit s 1) \<noteq> bit s 21) \<noteq> bit s 31)))"
  by (auto simp add: lfsr_step_eq Let_def bit_simps)

lemma lfsr_step_range: "0 \<le> fst (lfsr_step s) \<and> fst (lfsr_step s) < 2 ^ 32"
proof -
  have "fst (lfsr_step s) = take_bit 32 (fst (lfsr_step s))"
    by (rule bit_eqI) (auto simp add: bit_lfsr_step bit_simps)
  then show ?thesis
    by (metis take_bit_nonnegative take_bit_int_less_exp)
qed

lemma snd_lfsr_step: "snd (lfsr_step s) = fst (lfsr_step s)"
  by (simp add: lfsr_step_eq Let_def)

text \<open>
  Claim C3. For a 32-bit state \<open>s\<close>, with \<open>fb\<close> the XOR of bits 0, 1, 21 and 31 of
  \<open>s\<close>, \<open>lfsr_step s\<close> returns the pair \<open>(s', s')\<close> where \<open>s'\<close> is \<open>s\<close> shifted right by
  one bit with bit 31 set to \<open>fb\<close>: \<open>s'\<close> is again a 32-bit value, its bit 31 is
  \<open>fb\<close>, its bit \<open>n\<close> below 31 is bit \<open>n + 1\<close> of \<open>s\<close>, and the same value is both the
  new state and the output word. The all-zero state is a fixed point.
\<close>

theorem lfsr_step_spec:
  assumes "0 \<le> s" and "s < 2 ^ 32"
  shows "let fb = (((bit s 0 \<noteq> bit s 1) \<noteq> bit s 21) \<noteq> bit s 31);
             s' = drop_bit 1 s OR push_bit 31 (of_bool fb)
         in lfsr_step s = (s', s') \<and> 0 \<le> s' \<and> s' < 2 ^ 32 \<and>
            bit s' 31 = fb \<and> (\<forall>n. n < 31 \<longrightarrow> bit s' n = bit s (Suc n)) \<and>
            (\<forall>n. n > 31 \<longrightarrow> \<not> bit s' n) \<and>
            lfsr_step 0 = (0, 0)"
proof -
  have t: "take_bit 31 (drop_bit 1 s) = drop_bit 1 s"
    using assms by (simp add: take_bit_int_eq_self_iff drop_bit_eq_div)
  have eq: "lfsr_step s = (fst (lfsr_step s), fst (lfsr_step s))"
    using snd_lfsr_step [of s] by (cases "lfsr_step s") simp
  have f: "fst (lfsr_step s) = drop_bit 1 s OR
      push_bit 31 (of_bool (((bit s 0 \<noteq> bit s 1) \<noteq> bit s 21) \<noteq> bit s 31))"
    unfolding lfsr_step_eq Let_def t by (simp only: fst_conv)
  have z: "lfsr_step 0 = (0, 0)"
    by (simp add: lfsr_step_def)
  show ?thesis
    unfolding Let_def f [symmetric]
    using eq lfsr_step_range [of s] z by (auto simp add: bit_lfsr_step)
qed

theorem lfsr_step_spec_witness:
  "(0::int) \<le> 1 \<and> (1::int) < 2 ^ 32 \<and>
   lfsr_step 1 = (2147483648, 2147483648) \<and> lfsr_step 0 = (0, 0)"
  using lfsr_step_spec [of 1] by (simp add: Let_def)

section \<open>Bytes and blocks\<close>

lemma fold_snoc_map: "fold (\<lambda>i acc. acc @ [f i]) xs acc0 = acc0 @ map f xs"
  by (induction xs arbitrary: acc0) simp_all

lemma bytes_to_blocks_eq:
  "bytes_to_blocks data =
     Inr (map (\<lambda>k. int_from_bytes (take 4 (drop (4 * k) data)))
            [0..<(length data + 3) div 4])"
  by (simp add: bytes_to_blocks_def range_step4_def Let_def fold_snoc_map comp_def)

lemma bytes_to_blocks_Nil: "bytes_to_blocks [] = Inr []"
  by (simp add: bytes_to_blocks_eq)

lemma list_get_Nil: "list_get [] i = Inl IndexError"
  by (simp add: list_get_def norm_index_def)

lemma list_get_last: "xs \<noteq> [] \<Longrightarrow> list_get xs (- 1) = Inr (last xs)"
  by (cases xs rule: rev_cases) (simp_all add: list_get_def norm_index_def)

text \<open>
  Claim C8, as the code has it. The claim says that \<open>bytes_to_blocks\<close> fails on a byte
  sequence whose length is not a multiple of 4. The function has no such check: on
  five bytes it returns two blocks, the second built from the single trailing byte.
\<close>

theorem bytes_to_blocks_unaligned_counterexample:
  "bytes_to_blocks [1, 2, 3, 4, 5] = Inr [16909060, 5]"
  by (simp add: bytes_to_blocks_eq int_from_bytes_def upt_conv_Cons)

text \<open>
  Claim C8, amended. On a byte sequence whose length is not a multiple of 4,
  \<open>bytes_to_blocks\<close> does not fail: it returns \<open>len div 4 + 1\<close> blocks, the full
  four-byte groups in order and, last, the big-endian value of the remaining
  \<open>len mod 4\<close> bytes.
\<close>

theorem bytes_to_blocks_unaligned:
  assumes "length data mod 4 \<noteq> 0"
  shows "\<exists>blocks. bytes_to_blocks data = Inr blocks \<and>
           length blocks = length data div 4 + 1 \<and>
           (\<forall>k. k < length data div 4 \<longrightarrow>
                blocks ! k = int_from_bytes (take 4 (drop (4 * k) data))) \<and>
           last blocks = int_from_bytes (drop (4 * (length data div 4)) data)"
proof -
  let ?n = "length data"
  let ?f = "\<lambda>k. int_from_bytes (take 4 (drop (4 * k) data))"
  let ?blocks = "map ?f [0..<(?n + 3) div 4]"
  have len: "(?n + 3) div 4 = ?n div 4 + 1"
    using assms by presburger
  have short: "length (drop (4 * (?n div 4)) data) \<le> 4"
    by simp
  have "last ?blocks = ?f (?n div 4)"
    by (simp add: len last_map)
  also have "\<dots> = int_from_bytes (drop (4 * (?n div 4)) data)"
    using short by simp
  finally have l: "last ?blocks = int_from_bytes (drop (4 * (?n div 4)) data)" .
  have "\<forall>k. k < ?n div 4 \<longrightarrow> ?blocks ! k = ?f k"
    by (simp add: len nth_append del: upt_Suc)
  with l show ?thesis
    by (simp add: bytes_to_blocks_eq len del: upt_Suc)
qed

theorem bytes_to_blocks_unaligned_witness:
  "length [1 :: 8 word, 2, 3, 4, 5] mod 4 \<noteq> 0 \<and>
   (\<exists>blocks. bytes_to_blocks [1, 2, 3, 4, 5] = Inr blocks \<and> length blocks = 2)"
  using bytes_to_blocks_unaligned [of "[1, 2, 3, 4, 5]"] by auto

text \<open>
  Claim C10. \<open>decrypt_message\<close> on an empty ciphertext fails, and the failure is the
  IndexError of \<open>data[-1]\<close> in \<open>unpad_pkcs7\<close>, not the ValueError of an invalid
  padding. No block is processed, so this holds whatever the S-box globals are.
\<close>

theorem decrypt_message_empty:
  "decrypt_message g [] key_32 rounds = Inl IndexError \<and>
   decrypt_message g [] key_32 rounds \<noteq> Inl InvalidPadding"
  by (simp add: decrypt_message_def decrypted_blocks_of_def bytes_to_blocks_Nil
      blocks_to_bytes_def unpad_pkcs7_def list_get_Nil InvalidPadding_def)

theorem decrypt_message_empty_witness:
  "decrypt_message initial_globals [] 1 4 = Inl IndexError \<and>
   decrypt_message initial_globals [] 1 4 \<noteq> Inl InvalidPadding"
  using decrypt_message_empty [of initial_globals 1 4] .

section \<open>Padding\<close>

lemma bytes_of_ints_replicate:
  "0 \<le> v \<Longrightarrow> v < 256 \<Longrightarrow> bytes_of_ints (replicate n v) = Inr (replicate n (word_of_int v))"
  by (simp add: bytes_of_ints_def list_all_iff)

lemma pad_pkcs7_eq:
  assumes "block_size \<noteq> 0" and "pad_len = block_size - int (length m) mod block_size"
    and "pad_len \<noteq> 0" and "0 \<le> pad_len" and "pad_len < 256"
  shows "pad_pkcs7 m block_size = Inr (m @ replicate (nat pad_len) (word_of_int pad_len))"
proof -
  have "bytes_of_ints (replicate (nat pad_len) pad_len) =
          Inr (replicate (nat pad_len) (word_of_int pad_len))"
    using assms(4,5) by (rule bytes_of_ints_replicate)
  then show ?thesis
    using assms(1,3) unfolding pad_pkcs7_def Let_def assms(2) [symmetric] by simp
qed

lemma pad_pkcs7_4:
  "pad_pkcs7 m 4 = Inr (m @ replicate (4 - length m mod 4) (of_nat (4 - length m mod 4)))"
proof -
  define n where "n = 4 - length m mod 4"
  have i: "int n = 4 - int (length m) mod 4"
    unfolding n_def by (simp add: of_nat_diff zmod_int)
  have n: "1 \<le> n" "n \<le> 4"
    unfolding n_def by simp_all
  have "pad_pkcs7 m 4 = Inr (m @ replicate (nat (int n)) (word_of_int (int n)))"
    using n by (intro pad_pkcs7_eq) (simp_all add: i)
  then show ?thesis
    unfolding n_def by simp
qed


lemma slice_index_neg:
  "0 < n \<Longrightarrow> slice_index xs (- n) = length xs - nat n"
  by (auto simp add: slice_index_def Let_def max_def)

lemma unpad_pkcs7_eq:
  assumes "d \<noteq> []"
  shows "unpad_pkcs7 d bs =
    (let n = uint (last d) in
     if n < 1 \<or> n > bs \<or> (\<exists>p \<in> set (drop (length d - nat n) d). uint p \<noteq> n)
     then Inl InvalidPadding else Inr (take (length d - nat n) d))"
  using assms
  by (auto simp add: unpad_pkcs7_def list_get_last Let_def slice_from_def slice_to_def
      slice_index_neg list_ex_iff)

lemma uint_of_nat_small: "n \<le> 4 \<Longrightarrow> uint (of_nat n :: 8 word) = int n"
  by (simp add: unsigned_of_nat take_bit_nat_eq_self)

lemma unpad_pad:
  assumes "1 \<le> n" and "n \<le> 4"
  shows "unpad_pkcs7 (m @ replicate n (of_nat n)) 4 = Inr m"
proof -
  let ?padded = "m @ replicate n (of_nat n :: 8 word)"
  have ne: "?padded \<noteq> []" and l: "last ?padded = of_nat n"
    using assms by simp_all
  show ?thesis
    using assms
    by (simp add: unpad_pkcs7_eq [OF ne] l Let_def uint_of_nat_small [OF assms(2)])
qed


text \<open>
  Claim C6. For every byte sequence \<open>m\<close>, \<open>pad_pkcs7 m 4\<close> returns \<open>m\<close> followed by
  \<open>n\<close> bytes of value \<open>n\<close>, where \<open>n = 4 - (len m mod 4)\<close>; \<open>n\<close> lies between 1 and
  4 and is 4 when the length is already a multiple of 4; the padded length is a
  multiple of 4; and \<open>unpad_pkcs7\<close> of the padded sequence returns \<open>m\<close>.
\<close>

theorem pad_unpad_pkcs7:
  "let n = 4 - length m mod 4;
       padded = m @ replicate n (of_nat n)
   in pad_pkcs7 m 4 = Inr padded \<and> 1 \<le> n \<and> n \<le> 4 \<and>
      (length m mod 4 = 0 \<longrightarrow> n = 4) \<and>
      length padded = length m + n \<and> length padded mod 4 = 0 \<and>
      unpad_pkcs7 padded 4 = Inr m"
proof -
  define n where "n = 4 - length m mod 4"
  have n: "1 \<le> n" "n \<le> 4"
    unfolding n_def by simp_all
  have z: "length m mod 4 = 0 \<longrightarrow> n = 4"
    unfolding n_def by simp
  have len: "(length m + n) mod 4 = 0"
    unfolding n_def by presburger
  have p: "pad_pkcs7 m 4 = Inr (m @ replicate n (of_nat n))"
    unfolding n_def by (rule pad_pkcs7_4)
  have u: "unpad_pkcs7 (m @ replicate n (of_nat n)) 4 = Inr m"
    using n by (rule unpad_pad)
  show ?thesis
    unfolding Let_def n_def [symmetric] using n z len p u by simp
qed

theorem pad_unpad_pkcs7_witness:
  "pad_pkcs7 [7, 8] 4 = Inr [7, 8, 2, 2] \<and> unpad_pkcs7 [7, 8, 2, 2] 4 = Inr [7, 8]"
proof -
  have r: "replicate (2::nat) (2 :: 8 word) = [2, 2]"
    by (simp add: numeral_2_eq_2)
  show ?thesis
    using pad_unpad_pkcs7 [of "[7, 8]"] by (simp add: Let_def r)
qed


text \<open>
  Claim C7. For a non-empty byte sequence \<open>d\<close> whose last byte has value \<open>n\<close>,
  \<open>unpad_pkcs7 d block_size\<close> fails with the invalid-padding error exactly when
  \<open>n < 1\<close>, or \<open>n > block_size\<close>, or some byte among the final \<open>n\<close> bytes of \<open>d\<close>
  differs from \<open>n\<close>; otherwise it returns \<open>d\<close> without its final \<open>n\<close> bytes. The final
  \<open>n\<close> bytes are the slice \<open>d[-n:]\<close>: when \<open>d\<close> has fewer than \<open>n\<close> bytes they are all
  of \<open>d\<close>, and stripping them leaves the empty sequence.
\<close>

theorem unpad_pkcs7_spec:
  assumes "d \<noteq> []" and "n = uint (last d)"
  shows "(unpad_pkcs7 d block_size = Inl InvalidPadding \<longleftrightarrow>
            n < 1 \<or> n > block_size \<or>
            (\<exists>p \<in> set (drop (length d - nat n) d). uint p \<noteq> n)) \<and>
         (unpad_pkcs7 d block_size \<noteq> Inl InvalidPadding \<longrightarrow>
            unpad_pkcs7 d block_size = Inr (take (length d - nat n) d))"
  unfolding unpad_pkcs7_eq [OF assms(1)] Let_def assms(2) [symmetric] by simp

theorem unpad_pkcs7_spec_witness:
  "[7, 8, 2, 2 :: 8 word] \<noteq> [] \<and> (2 :: int) = uint (last [7, 8, 2, 2 :: 8 word]) \<and>
   unpad_pkcs7 [7, 8, 2, 2] 4 = Inr [7, 8]"
  using unpad_pkcs7_spec [of "[7, 8, 2, 2]" 2 4] by (simp add: InvalidPadding_def)

section \<open>The P-box\<close>

lemma bit_fold_or:
  "bit (fold (\<lambda>i (r::int). r OR f i) xs r0) n \<longleftrightarrow> bit r0 n \<or> (\<exists>i \<in> set xs. bit (f i) n)"
  by (induction xs arbitrary: r0) (auto simp add: bit_or_iff)

lemma bit_push_single: "bit (push_bit p (of_bool b :: int)) n \<longleftrightarrow> n = p \<and> b"
  by (auto simp add: bit_push_bit_iff bit_of_bool_iff)

lemma mod16_33: "(i * 33) mod 16 = (i::nat) mod 16"
proof -
  have "i * 33 = i + 16 * (2 * i)" by simp
  then show ?thesis by (simp only: mod_mult_self2)
qed

lemma mul3_mul11: "((i * 3) mod 16 * 11) mod 16 = (i::nat) mod 16"
proof -
  have "((i * 3) mod 16 * 11) mod 16 = (i * 3 * 11) mod 16"
    by (rule mod_mult_left_eq)
  also have "i * 3 * 11 = i * 33" by simp
  finally show ?thesis by (simp only: mod16_33)
qed

lemma mul11_mul3: "((n * 11) mod 16 * 3) mod 16 = (n::nat) mod 16"
proof -
  have "((n * 11) mod 16 * 3) mod 16 = (n * 11 * 3) mod 16"
    by (rule mod_mult_left_eq)
  also have "n * 11 * 3 = n * 33" by simp
  finally show ?thesis by (simp only: mod16_33)
qed

lemma bit_p_box_ex: "bit (p_box x) n \<longleftrightarrow> (\<exists>i<16. n = (i * 3) mod 16 \<and> bit x i)"
  unfolding p_box_def Let_def drop_bit_and_one
  by (simp add: bit_fold_or bit_push_single Bex_def)

lemma bit_p_box: "bit (p_box x) n \<longleftrightarrow> n < 16 \<and> bit x ((n * 11) mod 16)"
proof
  assume "bit (p_box x) n"
  then obtain i where i: "i < 16" "n = (i * 3) mod 16" "bit x i"
    unfolding bit_p_box_ex by blast
  from i(1,2) have "(n * 11) mod 16 = i" by (simp only: mul3_mul11 mod_less)
  moreover from i(2) have "n < 16" by simp
  ultimately show "n < 16 \<and> bit x ((n * 11) mod 16)" using i(3) by simp
next
  assume a: "n < 16 \<and> bit x ((n * 11) mod 16)"
  then have "n = ((n * 11) mod 16 * 3) mod 16" by (simp only: mul11_mul3 mod_less)
  moreover have "(n * 11) mod 16 < 16" by simp
  ultimately show "bit (p_box x) n"
    unfolding bit_p_box_ex using a by blast
qed

lemma mapping_table: "\<forall>i \<in> set [0..<16]. mapping i = Some ((i * 11) mod 16)"
  unfolding mapping_def by code_simp

lemma mapping_eq: "i < 16 \<Longrightarrow> mapping i = Some ((i * 11) mod 16)"
  using mapping_table by simp

lemma inverse_p_box_loop_eq:
  "\<forall>i \<in> set xs. i < 16 \<Longrightarrow>
   inverse_p_box_loop x xs r =
     Inr (fold (\<lambda>i r. r OR push_bit ((i * 11) mod 16) (of_bool (bit x i))) xs r)"
  by (induction xs arbitrary: r) (simp_all add: mapping_eq drop_bit_and_one)

lemma inverse_p_box_eq:
  "inverse_p_box x =
     Inr (fold (\<lambda>i r. r OR push_bit ((i * 11) mod 16) (of_bool (bit x i))) [0..<16] 0)"
  unfolding inverse_p_box_def by (rule inverse_p_box_loop_eq) simp


lemma bit_inverse_p_box_value:
  "bit (inverse_p_box_value x) n \<longleftrightarrow> n < 16 \<and> bit x ((n * 3) mod 16)"
proof -
  have ex: "bit (inverse_p_box_value x) n \<longleftrightarrow> (\<exists>i<16. n = (i * 11) mod 16 \<and> bit x i)"
    unfolding inverse_p_box_value_def by (simp add: bit_fold_or bit_push_single Bex_def)
  show ?thesis
  proof
    assume "bit (inverse_p_box_value x) n"
    then obtain i where i: "i < 16" "n = (i * 11) mod 16" "bit x i"
      unfolding ex by blast
    from i(1,2) have "(n * 3) mod 16 = i" by (simp only: mul11_mul3 mod_less)
    moreover from i(2) have "n < 16" by simp
    ultimately show "n < 16 \<and> bit x ((n * 3) mod 16)" using i(3) by simp
  next
    assume a: "n < 16 \<and> bit x ((n * 3) mod 16)"
    then have "n = ((n * 3) mod 16 * 11) mod 16" by (simp only: mul3_mul11 mod_less)
    moreover have "(n * 3) mod 16 < 16" by simp
    ultimately show "bit (inverse_p_box_value x) n"
      unfolding ex using a by blast
  qed
qed

lemma inverse_p_box_p_box: "inverse_p_box (p_box x) = Inr (take_bit 16 x)"
proof -
  have "inverse_p_box_value (p_box x) = take_bit 16 x"
  proof (rule bit_eqI)
    fix n
    show "bit (inverse_p_box_value (p_box x)) n \<longleftrightarrow> bit (take_bit 16 x) n"
    proof (cases "n < 16")
      case True
      then have "((n * 3) mod 16 * 11) mod 16 = n" by (simp only: mul3_mul11 mod_less)
      with True show ?thesis
        by (simp add: bit_inverse_p_box_value bit_p_box bit_take_bit_iff)
    next
      case False
      then show ?thesis
        by (simp add: bit_inverse_p_box_value bit_take_bit_iff)
    qed
  qed
  then show ?thesis
    by (simp add: inverse_p_box_eq inverse_p_box_value_def)
qed

lemma p_box_range: "0 \<le> p_box x \<and> p_box x < 2 ^ 16"
proof -
  have "p_box x = take_bit 16 (p_box x)"
    by (rule bit_eqI) (auto simp add: bit_p_box bit_take_bit_iff)
  then show ?thesis
    by (metis take_bit_nonnegative take_bit_int_less_exp)
qed

text \<open>
  Claim C5. \<open>p_box\<close> moves the bit at each position \<open>i\<close> of 0..15 to position
  \<open>(i * 3) mod 16\<close> and sets no bit from position 16 on; the hard-coded table of
  \<open>inverse_p_box\<close> sends \<open>(i * 3) mod 16\<close> back to \<open>i\<close>; and for every 16-bit \<open>x\<close>,
  \<open>inverse_p_box (p_box x)\<close> returns \<open>x\<close>.
\<close>

theorem p_box_spec:
  "(\<forall>i. i < 16 \<longrightarrow> bit (p_box x) ((i * 3) mod 16) = bit x i) \<and>
   (\<forall>n. 16 \<le> n \<longrightarrow> \<not> bit (p_box x) n) \<and>
   (\<forall>i. i < 16 \<longrightarrow> mapping ((i * 3) mod 16) = Some i) \<and>
   (0 \<le> x \<and> x < 2 ^ 16 \<longrightarrow> inverse_p_box (p_box x) = Inr x)"
proof -
  have a: "bit (p_box x) ((i * 3) mod 16) = bit x i" if "i < 16" for i
  proof -
    from that have "((i * 3) mod 16 * 11) mod 16 = i" by (simp only: mul3_mul11 mod_less)
    then show ?thesis by (simp add: bit_p_box)
  qed
  have b: "\<not> bit (p_box x) n" if "16 \<le> n" for n
    using that by (simp add: bit_p_box)
  have c: "mapping ((i * 3) mod 16) = Some i" if "i < 16" for i
  proof -
    from that have "((i * 3) mod 16 * 11) mod 16 = i" by (simp only: mul3_mul11 mod_less)
    then show ?thesis by (simp add: mapping_eq)
  qed
  have d: "inverse_p_box (p_box x) = Inr x" if "0 \<le> x \<and> x < 2 ^ 16"
    using that by (simp add: inverse_p_box_p_box take_bit_int_eq_self)
  from a b c d show ?thesis by blast
qed

theorem p_box_spec_witness:
  "(0::int) \<le> 5 \<and> (5::int) < 2 ^ 16 \<and> inverse_p_box (p_box 5) = Inr 5 \<and>
   mapping ((5 * 3) mod 16) = Some 5 \<and> bit (p_box 5) ((2 * 3) mod 16) = bit (5::int) 2"
proof -
  note s = p_box_spec [of 5]
  from s have "inverse_p_box (p_box 5) = Inr 5" by simp
  moreover from s have "(5::nat) < 16 \<longrightarrow> mapping ((5 * 3) mod 16) = Some 5" by blast
  moreover from s have "(2::nat) < 16 \<longrightarrow> bit (p_box 5) ((2 * 3) mod 16) = bit (5::int) 2"
    by blast
  ultimately show ?thesis by simp
qed

section \<open>S-box generation\<close>

lemma mset_rotate_eq: "mset (rotate n xs) = mset xs"
proof -
  let ?k = "n mod length xs"
  have "mset (drop ?k xs @ take ?k xs) = mset (take ?k xs @ drop ?k xs)"
    by (simp only: mset_append add.commute)
  then show ?thesis
    by (simp add: rotate_drop_take)
qed

lemma list_set_in_range:
  "0 \<le> v \<Longrightarrow> v < int (length xs) \<Longrightarrow> list_set xs v a = Inr (xs[nat v := a])"
  by (simp add: list_set_def norm_index_def)

lemma list_get_in_range:
  "0 \<le> v \<Longrightarrow> v < int (length xs) \<Longrightarrow> list_get xs v = Inr (xs ! nat v)"
  by (simp add: list_get_def norm_index_def)

lemma fill_inverse_ok:
  assumes "distinct box" and "\<forall>v \<in> set box. 0 \<le> v \<and> v < int (length inv0)"
  shows "\<exists>inv'. fill_inverse (enumerate k box) inv0 = Inr inv' \<and> length inv' = length inv0 \<and>
           (\<forall>j<length box. inv' ! nat (box ! j) = int (k + j)) \<and>
           (\<forall>p. int p \<notin> set box \<longrightarrow> inv' ! p = inv0 ! p)"
  using assms
proof (induction box arbitrary: k inv0)
  case Nil
  then show ?case by simp
next
  case (Cons v rest)
  let ?inv1 = "inv0[nat v := int k]"
  from Cons.prems have v: "0 \<le> v" "v < int (length inv0)" "v \<notin> set rest" "distinct rest"
    by simp_all
  from Cons.prems have r: "\<forall>u \<in> set rest. 0 \<le> u \<and> u < int (length ?inv1)"
    by simp
  from Cons.IH [OF v(4) r, of "Suc k"] obtain inv' where
    f: "fill_inverse (enumerate (Suc k) rest) ?inv1 = Inr inv'" and
    l: "length inv' = length ?inv1" and
    h: "\<forall>j<length rest. inv' ! nat (rest ! j) = int (Suc k + j)" and
    u: "\<forall>p. int p \<notin> set rest \<longrightarrow> inv' ! p = ?inv1 ! p"
    by blast
  have step: "fill_inverse (enumerate k (v # rest)) inv0 = Inr inv'"
    using f v(1,2) by (simp add: list_set_in_range)
  have head: "inv' ! nat v = int k"
  proof -
    from v(1,3) have "int (nat v) \<notin> set rest" by simp
    with u have "inv' ! nat v = ?inv1 ! nat v" by blast
    also have "\<dots> = int k" using v(1,2) by simp
    finally show ?thesis .
  qed
  have all: "inv' ! nat ((v # rest) ! j) = int (k + j)" if "j < length (v # rest)" for j
  proof (cases j)
    case 0
    with head show ?thesis by simp
  next
    case (Suc j')
    with that h show ?thesis by simp
  qed
  have keep: "inv' ! p = inv0 ! p" if "int p \<notin> set (v # rest)" for p
  proof -
    from that v(1) have "int p \<notin> set rest" and "nat v \<noteq> p" by auto
    with u show ?thesis by simp
  qed
  from step l all keep show ?case by auto
qed

lemma perm_range16:
  assumes "mset box = mset (map int [0..<16])"
  shows "distinct box" and "length box = 16" and "\<forall>v \<in> set box. 0 \<le> v \<and> v < 16"
proof -
  have d: "distinct (map int [0..<16])"
    by (simp add: distinct_map)
  with assms show "distinct box"
    by (metis mset_eq_imp_distinct_iff)
  from assms have "length box = length (map int [0..<16])"
    by (rule mset_eq_length)
  then show "length box = 16" by simp
  from assms have "set box = set (map int [0..<16])"
    by (rule mset_eq_setD)
  then show "\<forall>v \<in> set box. 0 \<le> v \<and> v < 16" by auto
qed

text \<open>
  Claim C4. Whenever the library shuffle returns a permutation of the list it is
  given, \<open>generate_s_box\<close> returns, for every seed, a pair \<open>(box, inv_box)\<close> where
  \<open>box\<close> is a permutation of 0..15 and \<open>inv_box[box[i]] = i\<close> for every \<open>i\<close> of 0..15
  (both subscripts in range). The pair is a function of the seed alone: \<open>box\<close> is the
  shuffle of 0..15 under that seed, so two calls with one seed return the same tables.
\<close>

theorem generate_s_box_spec:
  assumes "mset (shuffle seed (map int [0..<16])) = mset (map int [0..<16])"
  shows "\<exists>box inv_box.
           generate_s_box shuffle seed = Inr (box, inv_box) \<and>
           box = shuffle seed (map int [0..<16]) \<and>
           mset box = mset (map int [0..<16]) \<and>
           length box = 16 \<and> length inv_box = 16 \<and>
           (\<forall>i. i < 16 \<longrightarrow>
              (\<exists>v. list_get box (int i) = Inr v \<and> list_get inv_box v = Inr (int i)))"
proof -
  define box where "box = shuffle seed (map int [0..<16])"
  have m: "mset box = mset (map int [0..<16])"
    unfolding box_def by (rule assms)
  note p = perm_range16 [OF m]
  have "\<forall>v \<in> set box. 0 \<le> v \<and> v < int (length (replicate 16 (0::int)))"
    using p(3) by simp
  from fill_inverse_ok [OF p(1) this, of 0] obtain inv_box where
    f: "fill_inverse (enumerate 0 box) (replicate 16 0) = Inr inv_box" and
    l: "length inv_box = 16" and
    h: "\<forall>j<length box. inv_box ! nat (box ! j) = int (0 + j)"
    by auto
  have g: "generate_s_box shuffle seed = Inr (box, inv_box)"
    unfolding generate_s_box_def Let_def box_def [symmetric] by (simp add: f)
  have r: "\<exists>v. list_get box (int i) = Inr v \<and> list_get inv_box v = Inr (int i)"
    if "i < 16" for i
  proof -
    from that p(2) have i: "i < length box" by simp
    then have "box ! i \<in> set box" by simp
    with p(3) have b: "0 \<le> box ! i" "box ! i < int (length inv_box)"
      by (simp_all add: l)
    have "list_get box (int i) = Inr (box ! i)"
      using i by (simp add: list_get_in_range)
    moreover have "list_get inv_box (box ! i) = Inr (int i)"
      using h i by (simp add: list_get_in_range [OF b])
    ultimately show ?thesis by blast
  qed
  from g m p(2) l r show ?thesis
    unfolding box_def by blast
qed

theorem generate_s_box_spec_witness:
  "mset (example_shuffle 3 (map int [0..<16])) = mset (map int [0..<16]) \<and>
   (\<exists>box inv_box. generate_s_box example_shuffle 3 = Inr (box, inv_box) \<and>
      box = example_shuffle 3 (map int [0..<16]) \<and> length inv_box = 16)"
proof -
  have h: "mset (example_shuffle 3 (map int [0..<16])) = mset (map int [0..<16])"
    unfolding example_shuffle_def by (rule mset_rotate_eq)
  from generate_s_box_spec [of example_shuffle 3, OF h] h show ?thesis
    by blast
qed

section \<open>The Feistel block cipher\<close>

lemma subscript_ok:
  assumes "16 \<le> length tbl"
  shows "subscript (Some tbl) (y AND 0xF) = Inr (tbl ! nat (take_bit 4 y))"
proof -
  have "0 \<le> take_bit 4 y"
    by simp
  moreover have "take_bit 4 y < 16"
    using take_bit_int_less_exp [of 4 y] by simp
  ultimately have "0 \<le> take_bit 4 y" and "take_bit 4 y < int (length tbl)"
    using assms by simp_all
  then show ?thesis
    unfolding subscript_def and_mask4 by (simp add: list_get_in_range)
qed

lemma s_box_loop_ok:
  assumes "16 \<le> length tbl"
  shows "\<exists>v. s_box_loop (Some tbl) x is r = Inr v"
proof (induction "is" arbitrary: r)
  case Nil
  then show ?case by simp
next
  case (Cons i rest)
  show ?case
    using Cons.IH by (simp add: Let_def subscript_ok [OF assms])
qed

lemma s_box_ok:
  assumes "s_box_nibble g = Some tbl" and "16 \<le> length tbl"
  shows "\<exists>v. s_box g x = Inr v"
  unfolding s_box_def assms(1) by (rule s_box_loop_ok [OF assms(2)])

lemma round_function_ok:
  assumes "s_box_nibble g = Some tbl" and "16 \<le> length tbl"
  shows "\<exists>F. round_function g x subkey = Inr F \<and> take_bit 16 F = F"
proof -
  from s_box_ok [OF assms] obtain v where v: "s_box g x = Inr v" ..
  have "take_bit 16 (p_box v XOR take_bit 16 subkey) = p_box v XOR take_bit 16 subkey"
    by (rule bit_eqI) (auto simp add: bit_take_bit_iff bit_xor_iff bit_p_box)
  with v show ?thesis
    by (simp add: round_function_def and_mask16)
qed

lemma decrypt_rounds_snoc:
  "decrypt_rounds g (sks @ [sk]) L R =
     (case decrypt_rounds g sks L R of
        Inl e \<Rightarrow> Inl e
      | Inr (L1, R1) \<Rightarrow>
          (case round_function g L1 sk of
             Inl e \<Rightarrow> Inl e
           | Inr F \<Rightarrow> Inr (R1 XOR F, L1)))"
  by (induction sks arbitrary: L R) (simp_all add: Let_def split: sum.splits)

lemma xor_cancel: "((a::int) XOR b) XOR b = a"
  by (simp add: xor.assoc)

lemma rounds_inverse:
  "encrypt_rounds g sks L R = Inr (L', R') \<Longrightarrow> decrypt_rounds g (rev sks) L' R' = Inr (L, R)"
proof (induction sks arbitrary: L R)
  case Nil
  then show ?case by simp
next
  case (Cons sk rest)
  from Cons.prems obtain F where
    F: "round_function g R sk = Inr F" and
    e: "encrypt_rounds g rest R (L XOR F) = Inr (L', R')"
    by (auto simp add: Let_def split: sum.splits)
  from Cons.IH [OF e] have "decrypt_rounds g (rev rest) L' R' = Inr (R, L XOR F)" .
  then show ?case
    by (simp add: decrypt_rounds_snoc F xor_cancel)
qed

lemma encrypt_rounds_ok:
  assumes "s_box_nibble g = Some tbl" and "16 \<le> length tbl"
  shows "take_bit 16 L = L \<Longrightarrow> take_bit 16 R = R \<Longrightarrow>
         \<exists>L' R'. encrypt_rounds g sks L R = Inr (L', R') \<and>
                 take_bit 16 L' = L' \<and> take_bit 16 R' = R'"
proof (induction sks arbitrary: L R)
  case Nil
  then show ?case by simp
next
  case (Cons sk rest)
  from round_function_ok [OF assms] obtain F where
    F: "round_function g R sk = Inr F" "take_bit 16 F = F" by blast
  have "take_bit 16 (L XOR F) = L XOR F"
    using Cons.prems(1) F(2) by (simp add: take_bit_xor)
  from Cons.IH [OF Cons.prems(2) this] show ?case
    by (simp add: F(1) Let_def)
qed

lemma decrypt_rounds_ok:
  assumes "s_box_nibble g = Some tbl" and "16 \<le> length tbl"
  shows "take_bit 16 L = L \<Longrightarrow> take_bit 16 R = R \<Longrightarrow>
         \<exists>L' R'. decrypt_rounds g sks L R = Inr (L', R') \<and>
                 take_bit 16 L' = L' \<and> take_bit 16 R' = R'"
proof (induction sks arbitrary: L R)
  case Nil
  then show ?case by simp
next
  case (Cons sk rest)
  from round_function_ok [OF assms] obtain F where
    F: "round_function g L sk = Inr F" "take_bit 16 F = F" by blast
  have "take_bit 16 (R XOR F) = R XOR F"
    using Cons.prems(2) F(2) by (simp add: take_bit_xor)
  from Cons.IH [OF this Cons.prems(1)] show ?case
    by (simp add: F(1) Let_def)
qed

lemma join_halves: "push_bit 16 (take_bit 16 (drop_bit 16 b)) OR take_bit 16 b = take_bit 32 (b::int)"
  by (rule bit_eqI) (auto simp add: bit_simps)

lemma join_high: "take_bit 16 (drop_bit 16 (push_bit 16 (take_bit 16 l) OR take_bit 16 r)) = take_bit 16 (l::int)"
  by (rule bit_eqI) (auto simp add: bit_simps)

lemma join_low: "take_bit 16 (push_bit 16 (take_bit 16 l) OR take_bit 16 r) = take_bit 16 (r::int)"
  by (rule bit_eqI) (auto simp add: bit_simps)

lemma join_range: "take_bit 32 (push_bit 16 (take_bit 16 l) OR take_bit 16 r) = push_bit 16 (take_bit 16 l) OR take_bit 16 (r::int)"
  by (rule bit_eqI) (auto simp add: bit_simps)


lemma subkey_loop_state:
  "fst (subkey_loop n st sks) = ((\<lambda>x. fst (lfsr_step x)) ^^ n) st"
proof (induction n arbitrary: st sks)
  case 0
  then show ?case by simp
next
  case (Suc n)
  show ?case
    using funpow_swap1 [of "\<lambda>x. fst (lfsr_step x)" n st]
    by (simp add: Suc.IH split_beta)
qed

lemma encrypt_block_ok:
  assumes "s_box_nibble g = Some tbl" and "16 \<le> length tbl"
    and "subkey_loop (nat rounds) s [] = (st, sks)"
  shows "\<exists>L' R'. encrypt_rounds g sks (take_bit 16 (drop_bit 16 b)) (take_bit 16 b) = Inr (L', R') \<and>
           take_bit 16 L' = L' \<and> take_bit 16 R' = R' \<and>
           encrypt_block g b s rounds = Inr (push_bit 16 L' OR R', st)"
proof -
  from encrypt_rounds_ok [OF assms(1,2), of "take_bit 16 (drop_bit 16 b)" "take_bit 16 b" sks]
  obtain L' R' where
    e: "encrypt_rounds g sks (take_bit 16 (drop_bit 16 b)) (take_bit 16 b) = Inr (L', R')" and
    r: "take_bit 16 L' = L'" "take_bit 16 R' = R'"
    by auto
  have "encrypt_block g b s rounds = Inr (push_bit 16 L' OR R', st)"
    unfolding encrypt_block_def Let_def and_mask16 assms(3) by (simp add: e r)
  with e r show ?thesis by blast
qed

lemma decrypt_block_ok:
  assumes "s_box_nibble g = Some tbl" and "16 \<le> length tbl"
    and "subkey_loop (nat rounds) s [] = (st, sks)"
  shows "\<exists>L' R'. decrypt_rounds g (rev sks) (take_bit 16 (drop_bit 16 b)) (take_bit 16 b) = Inr (L', R') \<and>
           take_bit 16 L' = L' \<and> take_bit 16 R' = R' \<and>
           decrypt_block g b s rounds = Inr (push_bit 16 L' OR R', st)"
proof -
  from decrypt_rounds_ok [OF assms(1,2), of "take_bit 16 (drop_bit 16 b)" "take_bit 16 b" "rev sks"]
  obtain L' R' where
    e: "decrypt_rounds g (rev sks) (take_bit 16 (drop_bit 16 b)) (take_bit 16 b) = Inr (L', R')" and
    r: "take_bit 16 L' = L'" "take_bit 16 R' = R'"
    by auto
  have "decrypt_block g b s rounds = Inr (push_bit 16 L' OR R', st)"
    unfolding decrypt_block_def Let_def and_mask16 assms(3) by (simp add: e r)
  with e r show ?thesis by blast
qed

lemma block_inverse:
  assumes "s_box_nibble g = Some tbl" and "16 \<le> length tbl"
  shows "\<exists>c. encrypt_block g b s rounds = Inr (c, fst (subkey_loop (nat rounds) s [])) \<and>
             take_bit 32 c = c \<and>
             decrypt_block g c s rounds = Inr (take_bit 32 b, fst (subkey_loop (nat rounds) s []))"
proof -
  obtain st sks where sk: "subkey_loop (nat rounds) s [] = (st, sks)"
    by (cases "subkey_loop (nat rounds) s []")
  let ?L0 = "take_bit 16 (drop_bit 16 b)" and ?R0 = "take_bit 16 b"
  from encrypt_block_ok [OF assms sk, of b] obtain L' R' where
    e: "encrypt_rounds g sks ?L0 ?R0 = Inr (L', R')" and
    r: "take_bit 16 L' = L'" "take_bit 16 R' = R'" and
    eb: "encrypt_block g b s rounds = Inr (push_bit 16 L' OR R', st)"
    by blast
  let ?c = "push_bit 16 L' OR R'"
  have c: "?c = push_bit 16 (take_bit 16 L') OR take_bit 16 R'"
    by (simp add: r)
  have hi: "take_bit 16 (drop_bit 16 ?c) = L'"
    unfolding c join_high by (rule r)
  have lo: "take_bit 16 ?c = R'"
    unfolding c join_low by (rule r)
  have rng: "take_bit 32 ?c = ?c"
    unfolding c by (rule join_range)
  from rounds_inverse [OF e] have d: "decrypt_rounds g (rev sks) L' R' = Inr (?L0, ?R0)" .
  have "decrypt_block g ?c s rounds = Inr (push_bit 16 (take_bit 16 ?L0) OR take_bit 16 ?R0, st)"
    unfolding decrypt_block_def Let_def and_mask16 sk hi lo by (simp add: d)
  then have "decrypt_block g ?c s rounds = Inr (take_bit 32 b, st)"
    by (simp add: join_halves)
  with eb rng show ?thesis
    by (simp add: sk)
qed

lemma decrypt_block_state:
  assumes "s_box_nibble g = Some tbl" and "16 \<le> length tbl"
  shows "\<exists>p. decrypt_block g b s rounds = Inr (p, fst (subkey_loop (nat rounds) s [])) \<and>
             take_bit 32 p = p"
proof -
  obtain st sks where sk: "subkey_loop (nat rounds) s [] = (st, sks)"
    by (cases "subkey_loop (nat rounds) s []")
  from decrypt_block_ok [OF assms sk, of b] obtain L' R' where
    r: "take_bit 16 L' = L'" "take_bit 16 R' = R'" and
    db: "decrypt_block g b s rounds = Inr (push_bit 16 L' OR R', st)"
    by blast
  have "push_bit 16 L' OR R' = push_bit 16 (take_bit 16 L') OR take_bit 16 R'"
    by (simp add: r)
  then have "take_bit 32 (push_bit 16 L' OR R') = push_bit 16 L' OR R'"
    by (simp only: join_range)
  with db show ?thesis
    by (simp add: sk)
qed

text \<open>
  Claim C2. With an S-box table of at least 16 entries installed, for every 32-bit
  block \<open>b\<close>, every seed \<open>s\<close> and every round count, \<open>encrypt_block\<close> returns a
  32-bit cipher block \<open>c\<close> and a state \<open>st\<close>, and \<open>decrypt_block\<close> on \<open>c\<close> with the same
  seed and round count returns \<open>b\<close> and the same \<open>st\<close>. The state is the seed
  advanced by \<open>rounds\<close> LFSR steps, and \<open>decrypt_block\<close> returns it for every block:
  it does not depend on the data.
\<close>

theorem block_roundtrip:
  assumes "s_box_nibble g = Some tbl" and "16 \<le> length tbl"
    and "0 \<le> b" and "b < 2 ^ 32"
  shows "\<exists>c st. encrypt_block g b s rounds = Inr (c, st) \<and>
           0 \<le> c \<and> c < 2 ^ 32 \<and>
           decrypt_block g c s rounds = Inr (b, st) \<and>
           st = ((\<lambda>x. fst (lfsr_step x)) ^^ nat rounds) s \<and>
           (\<forall>b'. \<exists>p. decrypt_block g b' s rounds = Inr (p, st))"
proof -
  let ?st = "fst (subkey_loop (nat rounds) s [])"
  from block_inverse [OF assms(1,2), of b s rounds] obtain c where
    e: "encrypt_block g b s rounds = Inr (c, ?st)" and
    t: "take_bit 32 c = c" and
    d: "decrypt_block g c s rounds = Inr (take_bit 32 b, ?st)"
    by blast
  have b: "take_bit 32 b = b"
    using assms(3,4) by (simp add: take_bit_int_eq_self)
  have "0 \<le> take_bit 32 c" and "take_bit 32 c < 2 ^ 32"
    by (simp_all only: take_bit_nonnegative take_bit_int_less_exp)
  then have c: "0 \<le> c" "c < 2 ^ 32"
    unfolding t by simp_all
  have a: "\<forall>b'. \<exists>p. decrypt_block g b' s rounds = Inr (p, ?st)"
    using decrypt_block_state [OF assms(1,2)] by blast
  from e c d a show ?thesis
    unfolding b subkey_loop_state by blast
qed

theorem block_roundtrip_witness:
  "s_box_nibble \<lparr>s_box_nibble = Some (map int [0..<16]), inverse_s_box_nibble = None\<rparr>
     = Some (map int [0..<16]) \<and>
   16 \<le> length (map int [0..<16]) \<and> (0::int) \<le> 305419896 \<and> (305419896::int) < 2 ^ 32 \<and>
   (\<exists>c st. encrypt_block \<lparr>s_box_nibble = Some (map int [0..<16]), inverse_s_box_nibble = None\<rparr>
              305419896 1 4 = Inr (c, st) \<and>
            decrypt_block \<lparr>s_box_nibble = Some (map int [0..<16]), inverse_s_box_nibble = None\<rparr>
              c 1 4 = Inr (305419896, st))"
proof -
  let ?g = "\<lparr>s_box_nibble = Some (map int [0..<16]), inverse_s_box_nibble = None\<rparr>"
  have h: "s_box_nibble ?g = Some (map int [0..<16])" "16 \<le> length (map int [0..<16])"
    "(0::int) \<le> 305419896" "(305419896::int) < 2 ^ 32"
    by simp_all
  from block_roundtrip [OF h, of 1 4] h show ?thesis
    by blast
qed

section \<open>Blocks on the wire\<close>

lemma uint8_bounds: "0 \<le> uint (a :: 8 word) \<and> uint a < 256"
  using uint_lt2p [of a] by simp

lemma shift_div: "0 \<le> r \<Longrightarrow> r < 256 \<Longrightarrow> (q * 256 + r) div 256 = (q::int)"
  by simp

lemma div_mod_recompose:
  "((((b::int) div 16777216) * 256 + (b div 65536) mod 256) * 256 + (b div 256) mod 256) * 256 + b mod 256 = b"
proof -
  have 1: "b div 256 * 256 + b mod 256 = b"
    by (rule div_mult_mod_eq)
  have 2: "b div 65536 = b div 256 div 256"
    by (simp add: zdiv_zmult2_eq)
  have 3: "b div 16777216 = b div 256 div 256 div 256"
    by (simp add: zdiv_zmult2_eq)
  have 4: "b div 256 div 256 * 256 + b div 256 mod 256 = b div 256"
    by (rule div_mult_mod_eq)
  have 5: "b div 256 div 256 div 256 * 256 + b div 256 div 256 mod 256 = b div 256 div 256"
    by (rule div_mult_mod_eq)
  show ?thesis
    unfolding 2 3 5 4 1 ..
qed

lemma from_bytes4_eq:
  assumes "0 \<le> b" and "b < 2 ^ 32"
  shows "((uint (word_of_int (drop_bit 24 b) :: 8 word) * 256 +
           uint (word_of_int (drop_bit 16 b) :: 8 word)) * 256 +
           uint (word_of_int (drop_bit 8 b) :: 8 word)) * 256 +
           uint (word_of_int b :: 8 word) = b"
proof -
  have hi: "(b div 16777216) mod 256 = b div 16777216"
    using assms by (intro mod_pos_pos_trivial) (simp_all add: pos_imp_zdiv_nonneg_iff)
  show ?thesis
    using div_mod_recompose [of b]
    by (simp add: uint_word_of_int_eq take_bit_eq_mod drop_bit_eq_div hi)
qed

lemma to_bytes4_eq:
  fixes a b c d :: "8 word"
  defines "v \<equiv> ((uint a * 256 + uint b) * 256 + uint c) * 256 + uint d"
  shows "0 \<le> v" and "v < 2 ^ 32"
    and "word_of_int (drop_bit 24 v) = a" and "word_of_int (drop_bit 16 v) = b"
    and "word_of_int (drop_bit 8 v) = c" and "word_of_int v = d"
proof -
  note ba = uint8_bounds [of a] and bb = uint8_bounds [of b]
    and bc = uint8_bounds [of c] and bd = uint8_bounds [of d]
  show "0 \<le> v" unfolding v_def using ba bb bc bd by simp
  show "v < 2 ^ 32" unfolding v_def using ba bb bc bd by simp
  have d8: "v div 256 = (uint a * 256 + uint b) * 256 + uint c"
    unfolding v_def using bd by (intro shift_div) simp_all
  have d16: "v div 65536 = uint a * 256 + uint b"
  proof -
    have "v div 65536 = v div 256 div 256" by (simp add: zdiv_zmult2_eq)
    also have "\<dots> = uint a * 256 + uint b" unfolding d8 using bc by (intro shift_div) simp_all
    finally show ?thesis .
  qed
  have d24: "v div 16777216 = uint a"
  proof -
    have "v div 16777216 = v div 65536 div 256" by (simp add: zdiv_zmult2_eq)
    also have "\<dots> = uint a" unfolding d16 using bb by (intro shift_div) simp_all
    finally show ?thesis .
  qed
  have z: "(256 :: 8 word) = 0" "(65536 :: 8 word) = 0" "(16777216 :: 8 word) = 0"
    by simp_all
  show "word_of_int (drop_bit 24 v) = a"
    by (simp add: drop_bit_eq_div d24)
  show "word_of_int (drop_bit 16 v) = b"
    by (simp add: drop_bit_eq_div d16 z)
  show "word_of_int (drop_bit 8 v) = c"
    by (simp add: drop_bit_eq_div d8 z)
  show "word_of_int v = d"
    unfolding v_def by (simp add: z)
qed

lemma bytes_to_blocks_blocks_of: "bytes_to_blocks data = Inr (blocks_of data)"
  by (simp add: bytes_to_blocks_eq blocks_of_def)

lemma blocks_of_Nil: "blocks_of [] = []"
  by (simp add: blocks_of_def)

lemma length_blocks_of: "length (blocks_of data) = (length data + 3) div 4"
  by (simp add: blocks_of_def)

lemma nth_blocks_of:
  "j < (length data + 3) div 4 \<Longrightarrow>
   blocks_of data ! j = int_from_bytes (take 4 (drop (4 * j) data))"
  by (simp add: blocks_of_def del: upt_Suc)

lemma blocks_of_append4:
  assumes "length pre = 4"
  shows "blocks_of (pre @ rest) = int_from_bytes pre # blocks_of rest"
proof (rule nth_equalityI)
  show "length (blocks_of (pre @ rest)) = length (int_from_bytes pre # blocks_of rest)"
    using assms by (simp add: length_blocks_of)
next
  fix j
  assume "j < length (blocks_of (pre @ rest))"
  then have j: "j < (length (pre @ rest) + 3) div 4"
    by (simp only: length_blocks_of)
  show "blocks_of (pre @ rest) ! j = (int_from_bytes pre # blocks_of rest) ! j"
  proof (cases j)
    case 0
    with j assms show ?thesis
      by (simp add: nth_blocks_of)
  next
    case (Suc j')
    with j assms have j': "j' < (length rest + 3) div 4"
      by simp
    have "drop (4 * j) (pre @ rest) = drop (4 * j') rest"
      using assms Suc by simp
    with j j' Suc show ?thesis
      by (simp only: nth_blocks_of nth_Cons_Suc)
  qed
qed

lemma int_from_bytes4:
  "int_from_bytes [a, b, c, d] = ((uint a * 256 + uint b) * 256 + uint c) * 256 + uint d"
  by (simp add: int_from_bytes_def)

lemma length_bytes4: "length (bytes4 b) = 4"
  by (simp add: bytes4_def)

lemma int_from_bytes_bytes4:
  "0 \<le> b \<Longrightarrow> b < 2 ^ 32 \<Longrightarrow> int_from_bytes (bytes4 b) = b"
  unfolding bytes4_def int_from_bytes4 by (rule from_bytes4_eq)

lemma bytes4_int_from_bytes: "bytes4 (int_from_bytes [a, b, c, d]) = [a, b, c, d]"
  unfolding bytes4_def int_from_bytes4 by (simp only: to_bytes4_eq)

lemma int_from_bytes4_range:
  "0 \<le> int_from_bytes [a, b, c, d] \<and> int_from_bytes [a, b, c, d] < 2 ^ 32"
  unfolding int_from_bytes4 by (simp only: to_bytes4_eq)

lemma int_to_bytes4_eq: "0 \<le> b \<Longrightarrow> b < 2 ^ 32 \<Longrightarrow> int_to_bytes4 b = Inr (bytes4 b)"
  by (simp add: int_to_bytes4_def bytes4_def)

lemma blocks_to_bytes_loop_eq:
  "\<forall>b \<in> set bs. 0 \<le> b \<and> b < 2 ^ 32 \<Longrightarrow>
   blocks_to_bytes_loop bs out = Inr (out @ concat (map bytes4 bs))"
  by (induction bs arbitrary: out) (simp_all add: int_to_bytes4_eq)

lemma blocks_to_bytes_eq:
  "\<forall>b \<in> set bs. 0 \<le> b \<and> b < 2 ^ 32 \<Longrightarrow>
   blocks_to_bytes bs = Inr (concat (map bytes4 bs))"
  by (simp add: blocks_to_bytes_def blocks_to_bytes_loop_eq)

lemma blocks_of_concat:
  "\<forall>b \<in> set bs. 0 \<le> b \<and> b < 2 ^ 32 \<Longrightarrow> blocks_of (concat (map bytes4 bs)) = bs"
  by (induction bs)
     (simp_all add: blocks_of_Nil blocks_of_append4 length_bytes4 int_from_bytes_bytes4)

lemma length4_cases:
  assumes "length (pre :: 'a list) = 4"
  obtains a b c d where "pre = [a, b, c, d]"
proof -
  from assms obtain a r1 where 1: "pre = a # r1" "length r1 = 3"
    by (cases pre) simp_all
  then obtain b r2 where 2: "r1 = b # r2" "length r2 = 2"
    by (cases r1) simp_all
  then obtain c r3 where 3: "r2 = c # r3" "length r3 = 1"
    by (cases r2) simp_all
  then obtain d where 4: "r3 = [d]"
    by (cases r3) simp_all
  from 1 2 3 4 that show thesis by simp
qed

lemma aligned_blocks:
  "length data = 4 * n \<Longrightarrow>
   concat (map bytes4 (blocks_of data)) = data \<and>
   (\<forall>b \<in> set (blocks_of data). 0 \<le> b \<and> b < 2 ^ 32)"
proof (induction n arbitrary: data)
  case 0
  then show ?case by (simp add: blocks_of_Nil)
next
  case (Suc n)
  define pre where "pre = take 4 data"
  define rest where "rest = drop 4 data"
  have d: "data = pre @ rest"
    by (simp add: pre_def rest_def)
  from Suc.prems have lp: "length pre = 4" and lr: "length rest = 4 * n"
    by (simp_all add: pre_def rest_def)
  from lp obtain a b c d where p: "pre = [a, b, c, d]"
    by (rule length4_cases)
  note ih = Suc.IH [OF lr]
  have b: "blocks_of data = int_from_bytes pre # blocks_of rest"
    unfolding d by (rule blocks_of_append4 [OF lp])
  show ?case
    unfolding b using ih int_from_bytes4_range [of a b c d]
    by (simp add: p bytes4_int_from_bytes d)
qed


lemma loops_inverse:
  assumes "s_box_nibble g = Some tbl" and "16 \<le> length tbl"
  shows "\<forall>b \<in> set blks. 0 \<le> b \<and> b < 2 ^ 32 \<Longrightarrow>
         \<exists>encs. encrypt_loop g rounds blks st acc = Inr (acc @ encs) \<and>
                length encs = length blks \<and>
                (\<forall>c \<in> set encs. 0 \<le> c \<and> c < 2 ^ 32) \<and>
                (\<forall>acc'. decrypt_loop g rounds encs st acc' = Inr (acc' @ blks))"
proof (induction blks arbitrary: st acc)
  case Nil
  then show ?case by simp
next
  case (Cons b rest)
  let ?st' = "fst (subkey_loop (nat rounds) st [])"
  from Cons.prems have b: "take_bit 32 b = b"
    by (simp add: take_bit_int_eq_self)
  from block_inverse [OF assms, of b st rounds] obtain c where
    e: "encrypt_block g b st rounds = Inr (c, ?st')" and
    t: "take_bit 32 c = c" and
    d: "decrypt_block g c st rounds = Inr (b, ?st')"
    unfolding b by blast
  have "0 \<le> take_bit 32 c" and "take_bit 32 c < 2 ^ 32"
    by (simp_all only: take_bit_nonnegative take_bit_int_less_exp)
  then have c: "0 \<le> c \<and> c < 2 ^ 32"
    unfolding t by simp
  from Cons.prems have "\<forall>b \<in> set rest. 0 \<le> b \<and> b < 2 ^ 32"
    by simp
  from Cons.IH [OF this, of ?st' "acc @ [c]"] obtain encs where
    el: "encrypt_loop g rounds rest ?st' (acc @ [c]) = Inr ((acc @ [c]) @ encs)" and
    len: "length encs = length rest" and
    rng: "\<forall>c \<in> set encs. 0 \<le> c \<and> c < 2 ^ 32" and
    dl: "\<forall>acc'. decrypt_loop g rounds encs ?st' acc' = Inr (acc' @ rest)"
    by blast
  have 1: "encrypt_loop g rounds (b # rest) st acc = Inr (acc @ c # encs)"
    using el by (simp add: e)
  have 2: "\<forall>acc'. decrypt_loop g rounds (c # encs) st acc' = Inr (acc' @ b # rest)"
    using dl by (simp add: d)
  from 1 2 len rng c show ?case
    by (intro exI [of _ "c # encs"]) simp
qed

lemma message_inverse_blocks:
  assumes "s_box_nibble g = Some tbl" and "16 \<le> length tbl"
  shows "\<exists>c. encrypt_message g m key rounds = Inr c \<and>
             length c = length m + (4 - length m mod 4) \<and>
             decrypted_blocks_of g c key rounds =
               bytes_to_blocks (m @ replicate (4 - length m mod 4) (of_nat (4 - length m mod 4))) \<and>
             decrypt_message g c key rounds = Inr m"
proof -
  define n where "n = 4 - length m mod 4"
  define padded :: bytes where "padded = m @ replicate n (of_nat n)"
  have n: "1 \<le> n" "n \<le> 4"
    unfolding n_def by simp_all
  have p: "pad_pkcs7 m 4 = Inr padded"
    unfolding padded_def n_def by (rule pad_pkcs7_4)
  have "(length m + n) mod 4 = 0"
    unfolding n_def by presburger
  then obtain q where q: "length padded = 4 * q"
    unfolding padded_def by auto
  note al = aligned_blocks [OF q]
  from al have rng: "\<forall>b \<in> set (blocks_of padded). 0 \<le> b \<and> b < 2 ^ 32"
    by blast
  from loops_inverse [OF assms rng, of rounds key "[]"] obtain encs where
    el: "encrypt_loop g rounds (blocks_of padded) key [] = Inr encs" and
    len: "length encs = length (blocks_of padded)" and
    er: "\<forall>c \<in> set encs. 0 \<le> c \<and> c < 2 ^ 32" and
    dl: "decrypt_loop g rounds encs key [] = Inr (blocks_of padded)"
    by force
  define c where "c = concat (map bytes4 encs)"
  have em: "encrypt_message g m key rounds = Inr c"
    unfolding encrypt_message_def
    by (simp add: p bytes_to_blocks_blocks_of el blocks_to_bytes_eq [OF er] c_def)
  have bc: "blocks_of c = encs"
    unfolding c_def by (rule blocks_of_concat [OF er])
  have db: "decrypted_blocks_of g c key rounds = Inr (blocks_of padded)"
    unfolding decrypted_blocks_of_def by (simp add: bytes_to_blocks_blocks_of bc dl)
  have bb: "blocks_to_bytes (blocks_of padded) = Inr padded"
    using al by (simp add: blocks_to_bytes_eq [OF rng])
  have up: "unpad_pkcs7 padded 4 = Inr m"
    unfolding padded_def using n by (rule unpad_pad)
  have dm: "decrypt_message g c key rounds = Inr m"
    unfolding decrypt_message_def by (simp add: db bb up)
  have "length c = 4 * length encs"
    unfolding c_def by (induction encs) (simp_all add: length_bytes4)
  also have "\<dots> = 4 * ((length padded + 3) div 4)"
    by (simp add: len length_blocks_of)
  also have "\<dots> = length padded"
    unfolding q by simp
  finally have "length c = length m + (4 - length m mod 4)"
    by (simp add: padded_def n_def)
  moreover from db have "decrypted_blocks_of g c key rounds =
      bytes_to_blocks (m @ replicate (4 - length m mod 4) (of_nat (4 - length m mod 4)))"
    by (simp only: bytes_to_blocks_blocks_of padded_def n_def)
  ultimately show ?thesis
    using em dm by blast
qed

lemma message_inverse:
  assumes "s_box_nibble g = Some tbl" and "16 \<le> length tbl"
  shows "\<exists>c. encrypt_message g m key rounds = Inr c \<and>
             length c = length m + (4 - length m mod 4) \<and>
             decrypt_message g c key rounds = Inr m"
  using message_inverse_blocks [OF assms, of m key rounds] by blast

lemma install_s_box_table:
  assumes "mset (shuffle key (map int [0..<16])) = mset (map int [0..<16])"
    and "install_s_box shuffle key = Inr g"
  shows "s_box_nibble g = Some (shuffle key (map int [0..<16]))"
    and "length (shuffle key (map int [0..<16])) = 16"
proof -
  from perm_range16 (2) [OF assms(1)]
  show "length (shuffle key (map int [0..<16])) = 16" .
  from assms(2) show "s_box_nibble g = Some (shuffle key (map int [0..<16]))"
    by (auto simp add: install_s_box_def generate_s_box_def Let_def split: sum.splits)
qed

text \<open>
  Claim C1. Once the S-box globals hold the tables generated from the key (the
  library shuffle returning a permutation of 0..15), for every byte sequence \<open>m\<close>,
  the empty one included, every key and every round count, 4 among them,
  \<open>encrypt_message\<close> returns a ciphertext \<open>c\<close> of the padded length and
  \<open>decrypt_message\<close> on \<open>c\<close> with the same key and round count returns exactly \<open>m\<close>.
\<close>

theorem message_roundtrip:
  assumes "mset (shuffle key (map int [0..<16])) = mset (map int [0..<16])"
    and "install_s_box shuffle key = Inr g"
  shows "\<exists>c. encrypt_message g m key rounds = Inr c \<and>
             length c = length m + (4 - length m mod 4) \<and>
             decrypt_message g c key rounds = Inr m"
proof -
  note t = install_s_box_table [OF assms]
  from t(2) have "16 \<le> length (shuffle key (map int [0..<16]))"
    by simp
  with t(1) show ?thesis
    by (rule message_inverse)
qed

theorem message_roundtrip_witness:
  "mset (example_shuffle 1 (map int [0..<16])) = mset (map int [0..<16]) \<and>
   install_s_box example_shuffle 1 =
     Inr \<lparr>s_box_nibble = Some [1, 2, 3, 4, 5, 6, 7, 8, 9, 10, 11, 12, 13, 14, 15, 0],
          inverse_s_box_nibble = Some [15, 0, 1, 2, 3, 4, 5, 6, 7, 8, 9, 10, 11, 12, 13, 14]\<rparr> \<and>
   (\<exists>c. encrypt_message
          \<lparr>s_box_nibble = Some [1, 2, 3, 4, 5, 6, 7, 8, 9, 10, 11, 12, 13, 14, 15, 0],
           inverse_s_box_nibble = Some [15, 0, 1, 2, 3, 4, 5, 6, 7, 8, 9, 10, 11, 12, 13, 14]\<rparr>
          [72, 105] 1 4 = Inr c \<and>
        decrypt_message
          \<lparr>s_box_nibble = Some [1, 2, 3, 4, 5, 6, 7, 8, 9, 10, 11, 12, 13, 14, 15, 0],
           inverse_s_box_nibble = Some [15, 0, 1, 2, 3, 4, 5, 6, 7, 8, 9, 10, 11, 12, 13, 14]\<rparr>
          c 1 4 = Inr [72, 105])"
proof -
  have h1: "mset (example_shuffle 1 (map int [0..<16])) = mset (map int [0..<16])"
    unfolding example_shuffle_def by (rule mset_rotate_eq)
  have h2: "install_s_box example_shuffle 1 =
     Inr \<lparr>s_box_nibble = Some [1, 2, 3, 4, 5, 6, 7, 8, 9, 10, 11, 12, 13, 14, 15, 0],
          inverse_s_box_nibble = Some [15, 0, 1, 2, 3, 4, 5, 6, 7, 8, 9, 10, 11, 12, 13, 14]\<rparr>"
    by code_simp
  from message_roundtrip [OF h1 h2, of "[72, 105]" 4] h1 h2 show ?thesis
    by blast
qed

lemma funpow_mult_Suc:
  "(f ^^ (r * j)) ((f ^^ r) x) = (f ^^ (r * Suc j)) x"
proof -
  have "r * Suc j = r * j + r" by simp
  then show ?thesis by (simp only: funpow_add o_apply)
qed

lemma decrypt_loop_blocks:
  assumes "s_box_nibble g = Some tbl" and "16 \<le> length tbl"
  shows "\<exists>ds. decrypt_loop g rounds cs st acc = Inr (acc @ ds) \<and>
              length ds = length cs \<and>
              (\<forall>j<length cs.
                 decrypt_block g (cs ! j)
                   (((\<lambda>x. fst (lfsr_step x)) ^^ (nat rounds * j)) st) rounds =
                 Inr (ds ! j, ((\<lambda>x. fst (lfsr_step x)) ^^ (nat rounds * Suc j)) st))"
proof (induction cs arbitrary: st acc)
  case Nil
  then show ?case by simp
next
  case (Cons c rest)
  let ?f = "\<lambda>x. fst (lfsr_step x)"
  let ?st' = "(?f ^^ nat rounds) st"
  from decrypt_block_state [OF assms, of c st rounds] obtain p where
    d: "decrypt_block g c st rounds = Inr (p, ?st')"
    unfolding subkey_loop_state by blast
  from Cons.IH [of ?st' "acc @ [p]"] obtain ds where
    dl: "decrypt_loop g rounds rest ?st' (acc @ [p]) = Inr ((acc @ [p]) @ ds)" and
    len: "length ds = length rest" and
    each: "\<forall>j<length rest.
             decrypt_block g (rest ! j) ((?f ^^ (nat rounds * j)) ?st') rounds =
             Inr (ds ! j, (?f ^^ (nat rounds * Suc j)) ?st')"
    by blast
  have 1: "decrypt_loop g rounds (c # rest) st acc = Inr (acc @ p # ds)"
    using dl by (simp add: d)
  have 2: "decrypt_block g ((c # rest) ! j) ((?f ^^ (nat rounds * j)) st) rounds =
           Inr ((p # ds) ! j, (?f ^^ (nat rounds * Suc j)) st)"
    if "j < length (c # rest)" for j
  proof (cases j)
    case 0
    with d show ?thesis by simp
  next
    case (Suc j')
    with that have "j' < length rest" by simp
    with each have "decrypt_block g (rest ! j') ((?f ^^ (nat rounds * j')) ?st') rounds =
             Inr (ds ! j', (?f ^^ (nat rounds * Suc j')) ?st')"
      by blast
    then show ?thesis
      unfolding Suc nth_Cons_Suc funpow_mult_Suc .
  qed
  from 1 2 len show ?case
    by (intro exI [of _ "p # ds"]) simp
qed

lemma blocks_of_agree:
  assumes "length c = length c'"
    and "\<forall>k<length c. k div 4 \<noteq> i \<longrightarrow> c ! k = c' ! k"
    and "j \<noteq> i" and "j < length (blocks_of c)"
  shows "blocks_of c ! j = blocks_of c' ! j"
proof -
  from assms(4) have j: "j < (length c + 3) div 4"
    by (simp only: length_blocks_of)
  have "take 4 (drop (4 * j) c) = take 4 (drop (4 * j) c')"
  proof (rule nth_equalityI)
    show "length (take 4 (drop (4 * j) c)) = length (take 4 (drop (4 * j) c'))"
      using assms(1) by simp
  next
    fix k
    assume "k < length (take 4 (drop (4 * j) c))"
    then have k: "k < 4" "4 * j + k < length c"
      by auto
    then have "(4 * j + k) div 4 = j"
      by simp
    with assms(2,3) k(2) have "c ! (4 * j + k) = c' ! (4 * j + k)"
      by simp
    with k assms(1) show "take 4 (drop (4 * j) c) ! k = take 4 (drop (4 * j) c') ! k"
      by simp
  qed
  with j assms(1) show ?thesis
    by (simp only: nth_blocks_of)
qed

text \<open>
  Claim C9. With an S-box table installed, let two ciphertexts of the same length
  agree on every byte outside block \<open>i\<close> (bytes \<open>4 * i\<close> to \<open>4 * i + 3\<close>). Decrypting
  both with the same key and round count gives two block sequences of the same
  length that agree on every block other than block \<open>i\<close>; when the first
  ciphertext is the encryption of a plaintext \<open>m\<close>, its block sequence is that of the
  padded \<open>m\<close>, so the other decrypts to the original plaintext outside block \<open>i\<close>.
  The reason is in the last
  two conjuncts: decrypted block \<open>j\<close> is \<open>decrypt_block\<close> of cipher block \<open>j\<close> under
  the LFSR state reached from the key after \<open>rounds * j\<close> steps, a state in which
  no ciphertext byte takes part.
\<close>

theorem corruption_is_local:
  assumes "s_box_nibble g = Some tbl" and "16 \<le> length tbl"
    and "length c = length c'"
    and "\<forall>k<length c. k div 4 \<noteq> i \<longrightarrow> c ! k = c' ! k"
  shows "\<exists>bs bs' ds ds'.
           bytes_to_blocks c = Inr bs \<and> bytes_to_blocks c' = Inr bs' \<and>
           decrypted_blocks_of g c key rounds = Inr ds \<and>
           decrypted_blocks_of g c' key rounds = Inr ds' \<and>
           length ds = (length c + 3) div 4 \<and> length ds' = length ds \<and>
           (\<forall>j<length ds. j \<noteq> i \<longrightarrow> ds ! j = ds' ! j) \<and>
           (\<forall>m. encrypt_message g m key rounds = Inr c \<longrightarrow>
              bytes_to_blocks
                (m @ replicate (4 - length m mod 4) (of_nat (4 - length m mod 4))) = Inr ds) \<and>
           (\<forall>j<length ds.
              decrypt_block g (bs ! j)
                (((\<lambda>x. fst (lfsr_step x)) ^^ (nat rounds * j)) key) rounds =
              Inr (ds ! j, ((\<lambda>x. fst (lfsr_step x)) ^^ (nat rounds * Suc j)) key)) \<and>
           (\<forall>j<length ds.
              decrypt_block g (bs' ! j)
                (((\<lambda>x. fst (lfsr_step x)) ^^ (nat rounds * j)) key) rounds =
              Inr (ds' ! j, ((\<lambda>x. fst (lfsr_step x)) ^^ (nat rounds * Suc j)) key))"
proof -
  let ?f = "\<lambda>x. fst (lfsr_step x)"
  from decrypt_loop_blocks [OF assms(1,2), of rounds "blocks_of c" key "[]"] obtain ds where
    1: "decrypt_loop g rounds (blocks_of c) key [] = Inr ds" and
    l1: "length ds = length (blocks_of c)" and
    e1: "\<forall>j<length (blocks_of c).
           decrypt_block g (blocks_of c ! j) ((?f ^^ (nat rounds * j)) key) rounds =
           Inr (ds ! j, (?f ^^ (nat rounds * Suc j)) key)"
    by auto
  from decrypt_loop_blocks [OF assms(1,2), of rounds "blocks_of c'" key "[]"] obtain ds' where
    2: "decrypt_loop g rounds (blocks_of c') key [] = Inr ds'" and
    l2: "length ds' = length (blocks_of c')" and
    e2: "\<forall>j<length (blocks_of c').
           decrypt_block g (blocks_of c' ! j) ((?f ^^ (nat rounds * j)) key) rounds =
           Inr (ds' ! j, (?f ^^ (nat rounds * Suc j)) key)"
    by auto
  have ll: "length (blocks_of c') = length (blocks_of c)"
    using assms(3) by (simp add: length_blocks_of)
  have ag: "ds ! j = ds' ! j" if "j < length ds" and "j \<noteq> i" for j
  proof -
    from that(1) l1 have j: "j < length (blocks_of c)" by simp
    from blocks_of_agree [OF assms(3,4) that(2) j]
    have "blocks_of c ! j = blocks_of c' ! j" .
    with e1 e2 j ll show ?thesis
      by (metis Inr_inject prod.inject)
  qed
  have d1: "decrypted_blocks_of g c key rounds = Inr ds"
    by (simp add: decrypted_blocks_of_def bytes_to_blocks_blocks_of 1)
  have d2: "decrypted_blocks_of g c' key rounds = Inr ds'"
    by (simp add: decrypted_blocks_of_def bytes_to_blocks_blocks_of 2)
  have len: "length ds = (length c + 3) div 4" "length ds' = length ds"
    using l1 l2 ll by (simp_all add: length_blocks_of)
  from e1 l1 have e1': "\<forall>j<length ds.
           decrypt_block g (blocks_of c ! j) ((?f ^^ (nat rounds * j)) key) rounds =
           Inr (ds ! j, (?f ^^ (nat rounds * Suc j)) key)"
    by simp
  from e2 l1 ll have e2': "\<forall>j<length ds.
           decrypt_block g (blocks_of c' ! j) ((?f ^^ (nat rounds * j)) key) rounds =
           Inr (ds' ! j, (?f ^^ (nat rounds * Suc j)) key)"
    by simp
  have pl: "bytes_to_blocks
      (m @ replicate (4 - length m mod 4) (of_nat (4 - length m mod 4))) = Inr ds"
    if "encrypt_message g m key rounds = Inr c" for m
    using message_inverse_blocks [OF assms(1,2), of m key rounds] that d1 by auto
  from d1 d2 len ag e1' e2' pl show ?thesis
    by (intro exI [of _ "blocks_of c"] exI [of _ "blocks_of c'"] exI [of _ ds] exI [of _ ds'])
       (simp add: bytes_to_blocks_blocks_of)
qed

theorem corruption_is_local_witness:
  "\<exists>ds ds'.
     decrypted_blocks_of \<lparr>s_box_nibble = Some (map int [0..<16]), inverse_s_box_nibble = None\<rparr>
       [1, 2, 3, 4, 5, 6, 7, 8, 9, 10, 11, 12] 1 4 = Inr ds \<and>
     decrypted_blocks_of \<lparr>s_box_nibble = Some (map int [0..<16]), inverse_s_box_nibble = None\<rparr>
       [1, 2, 3, 4, 5, 6, 7, 9, 9, 10, 11, 12] 1 4 = Inr ds' \<and>
     length ds = 3 \<and> length ds' = 3 \<and> ds ! 0 = ds' ! 0 \<and> ds ! 2 = ds' ! 2"
proof -
  let ?g = "\<lparr>s_box_nibble = Some (map int [0..<16]), inverse_s_box_nibble = None\<rparr>"
  let ?c = "[1, 2, 3, 4, 5, 6, 7, 8, 9, 10, 11, 12] :: bytes"
  let ?c' = "[1, 2, 3, 4, 5, 6, 7, 9, 9, 10, 11, 12] :: bytes"
  have h: "s_box_nibble ?g = Some (map int [0..<16])" "16 \<le> length (map int [0..<16])"
    "length ?c = length ?c'"
    by simp_all
  have d: "\<forall>k<length ?c. k div 4 \<noteq> 1 \<longrightarrow> ?c ! k = ?c' ! k"
    by (auto simp add: nth_Cons')
  from corruption_is_local [OF h d, of 1 4] obtain ds ds' where
    r: "decrypted_blocks_of ?g ?c 1 4 = Inr ds" "decrypted_blocks_of ?g ?c' 1 4 = Inr ds'"
      "length ds = (length ?c + 3) div 4" "length ds' = length ds"
      "\<forall>j<length ds. j \<noteq> 1 \<longrightarrow> ds ! j = ds' ! j"
    by blast
  from r(3) have l: "length ds = 3" by simp
  with r(5) have "ds ! 0 = ds' ! 0" and "ds ! 2 = ds' ! 2"
    by simp_all
  with r l show ?thesis
    by auto
qed

end
